theory Spec2Isabelle
  imports Main "HOL-Library.Word"
begin

unbundle bit_operations_syntax

section \<open>The working copy service\<close>

subsection \<open>Working copies\<close>

text \<open>
  An \<open>IWorkingCopy\<close> is an object; the service compares working copies by identity
  (\<open>Set.has\<close>, \<open>Set.delete\<close>), so a working copy is referred to by its address, a
  natural number, and the objects live in a heap. Of \<open>resource\<close> the service only
  ever uses \<open>resource.toString()\<close>, which is what the field \<open>resource\<close> holds.
  \<open>isDirty\<close> is what the method \<open>isDirty()\<close> answers at the moment. The event
  \<open>onDidChangeDirty\<close> of the copy is the list of its listeners in subscription
  order; the only listeners of interest are the closures
  \<open>() => this._onDidChangeDirty.fire(workingCopy)\<close> the service subscribes, each given
  by the number of the registration that created it and the working copy it captured.
  \<open>capabilities\<close> is the bit set the dirty files tracker reads.
\<close>

type_synonym ref = nat

record IWorkingCopy =
  resource :: string
  isDirty :: bool
  capabilities :: "32 word"
  onDidChangeDirty :: "(nat \<times> ref) list"

subsection \<open>The resource index\<close>

text \<open>
  Modelled from the spec: \<open>TernarySearchTree\<close> (vs/base/common/map) is not part of
  the sources at hand. The spec describes the index as a mapping from the string form
  of the resource to a set of working copies, for which "a plain hash map keyed by
  canonical resource string suffices". It is an association list with at most one
  entry for a key: \<open>tst_get\<close> answers \<open>None\<close> for \<open>undefined\<close>, \<open>tst_set\<close>
  overwrites or appends, \<open>tst_delete\<close> removes the key, \<open>tst_forEach\<close> visits every
  stored value. A \<open>Set<IWorkingCopy>\<close> is the list of its elements in insertion
  order; \<open>set_add\<close> and \<open>set_delete\<close> are \<open>Set.add\<close> and \<open>Set.delete\<close>.
\<close>

type_synonym 'v tst = "(string \<times> 'v) list"

definition tst_get :: "'v tst \<Rightarrow> string \<Rightarrow> 'v option" where
  "tst_get t k = map_of t k"

fun tst_set :: "string \<Rightarrow> 'v \<Rightarrow> 'v tst \<Rightarrow> 'v tst" where
  "tst_set k v [] = [(k, v)]"
| "tst_set k v (p # ps) = (if fst p = k then (k, v) # ps else p # tst_set k v ps)"

definition tst_delete :: "string \<Rightarrow> 'v tst \<Rightarrow> 'v tst" where
  "tst_delete k t = filter (\<lambda>p. fst p \<noteq> k) t"

definition tst_forEach :: "('v \<Rightarrow> 'a \<Rightarrow> 'a) \<Rightarrow> 'v tst \<Rightarrow> 'a \<Rightarrow> 'a" where
  "tst_forEach f t a = fold (\<lambda>p. f (snd p)) t a"

definition set_has :: "ref list \<Rightarrow> ref \<Rightarrow> bool" where
  "set_has ws c = (c \<in> set ws)"

definition set_add :: "ref \<Rightarrow> ref list \<Rightarrow> ref list" where
  "set_add c ws = (if c \<in> set ws then ws else ws @ [c])"

definition set_delete :: "ref \<Rightarrow> ref list \<Rightarrow> bool \<times> ref list" where
  "set_delete c ws = (c \<in> set ws, remove1 c ws)"

subsection \<open>The state\<close>

text \<open>
  \<open>heap\<close> holds the working copy objects. \<open>mapResourceToWorkingCopy\<close> is the field of
  the service. \<open>handles\<close> has one entry for every call of \<open>registerWorkingCopy\<close> so far,
  in order: the working copy the returned disposable captured and whether its
  \<open>DisposableStore\<close> has been disposed. \<open>fired\<close> is what an observer of the service's
  \<open>onDidChangeDirty\<close> has received so far, oldest first.
\<close>

record world =
  heap :: "ref \<Rightarrow> IWorkingCopy"
  mapResourceToWorkingCopy :: "ref list tst"
  handles :: "(ref \<times> bool) list"
  fired :: "ref list"

definition fire :: "ref \<Rightarrow> world \<Rightarrow> world" where
  "fire c w = w\<lparr>fired := fired w @ [c]\<rparr>"

subsection \<open>Dirty tracking\<close>

fun any_dirty :: "(ref \<Rightarrow> IWorkingCopy) \<Rightarrow> ref list \<Rightarrow> bool" where
  "any_dirty h [] = False"
| "any_dirty h (c # cs) = (if isDirty (h c) then True else any_dirty h cs)"

definition service_isDirty :: "world \<Rightarrow> string \<Rightarrow> bool" where
  "service_isDirty w r =
     (case tst_get (mapResourceToWorkingCopy w) r of
        Some workingCopies \<Rightarrow> any_dirty (heap w) workingCopies
      | None \<Rightarrow> False)"

definition count_dirty :: "(ref \<Rightarrow> IWorkingCopy) \<Rightarrow> ref list \<Rightarrow> nat \<Rightarrow> nat" where
  "count_dirty h workingCopies totalDirtyCount =
     fold (\<lambda>c t. if isDirty (h c) then t + 1 else t) workingCopies totalDirtyCount"

definition dirtyCount :: "world \<Rightarrow> nat" where
  "dirtyCount w = tst_forEach (count_dirty (heap w)) (mapResourceToWorkingCopy w) 0"

subsection \<open>Registry\<close>

text \<open>
  \<open>registerWorkingCopy\<close> answers the number of the new handle together with the new
  state. The subscription of line 108 is made on every call.
\<close>

definition subscribe :: "ref \<Rightarrow> nat \<times> ref \<Rightarrow> world \<Rightarrow> world" where
  "subscribe c l w =
     w\<lparr>heap := (heap w)(c := (heap w c)\<lparr>onDidChangeDirty := onDidChangeDirty (heap w c) @ [l]\<rparr>)\<rparr>"

definition unsubscribe :: "ref \<Rightarrow> nat \<Rightarrow> world \<Rightarrow> world" where
  "unsubscribe c n w =
     w\<lparr>heap := (heap w)(c := (heap w c)
          \<lparr>onDidChangeDirty := filter (\<lambda>l. fst l \<noteq> n) (onDidChangeDirty (heap w c))\<rparr>)\<rparr>"

definition registerWorkingCopy :: "ref \<Rightarrow> world \<Rightarrow> nat \<times> world" where
  "registerWorkingCopy workingCopy w =
     (let key = resource (heap w workingCopy);
          m = mapResourceToWorkingCopy w;
          (workingCopiesForResource, m1) =
             (case tst_get m key of
                None \<Rightarrow> ([], tst_set key [] m)
              | Some ws \<Rightarrow> (ws, m));
          m2 = (if \<not> set_has workingCopiesForResource workingCopy
                then tst_set key (set_add workingCopy workingCopiesForResource) m1
                else m1);
          n = length (handles w);
          w1 = subscribe workingCopy (n, workingCopy) (w\<lparr>mapResourceToWorkingCopy := m2\<rparr>)
      in (n, w1\<lparr>handles := handles w1 @ [(workingCopy, False)]\<rparr>))"

definition unregisterWorkingCopy :: "ref \<Rightarrow> world \<Rightarrow> world" where
  "unregisterWorkingCopy workingCopy w =
     (let key = resource (heap w workingCopy);
          m = mapResourceToWorkingCopy w;
          m1 = (case tst_get m key of
                  None \<Rightarrow> m
                | Some ws \<Rightarrow>
                    (let (deleted, ws1) = set_delete workingCopy ws in
                     if deleted then
                       (if length ws1 = 0 then tst_delete key (tst_set key ws1 m)
                        else tst_set key ws1 m)
                     else m));
          w1 = w\<lparr>mapResourceToWorkingCopy := m1\<rparr>
      in if isDirty (heap w1 workingCopy) then fire workingCopy w1 else w1)"

text \<open>
  Modelled from the spec: \<open>toDisposable\<close>, \<open>DisposableStore\<close> and \<open>Emitter\<close>
  (vs/base/common/lifecycle, vs/base/common/event) are not part of the sources at hand.
  Disposing the handle runs the function given to \<open>toDisposable\<close>: first
  \<open>unregisterWorkingCopy\<close>, then \<open>dispose(disposables)\<close>, which cancels the
  subscription of this registration the first time and does nothing afterwards
  ("each subscription independently cancellable"). A number that no call of
  \<open>registerWorkingCopy\<close> has answered is no handle, and nothing happens.
\<close>

definition dispose_store :: "nat \<Rightarrow> world \<Rightarrow> world" where
  "dispose_store n w =
     (case handles w ! n of
        (c, disposed) \<Rightarrow>
          if disposed then w
          else (unsubscribe c n w)\<lparr>handles := (handles w)[n := (c, True)]\<rparr>)"

definition dispose_handle :: "nat \<Rightarrow> world \<Rightarrow> world" where
  "dispose_handle n w =
     (if n < length (handles w)
      then dispose_store n (unregisterWorkingCopy (fst (handles w ! n)) w)
      else w)"

text \<open>
  What the working copies do on their own: \<open>setDirty\<close> changes the answer of
  \<open>isDirty()\<close>, \<open>fireDidChangeDirty\<close> fires the copy's own \<open>onDidChangeDirty\<close>, which
  runs the listeners in subscription order; each listener fires the service's event
  with the working copy it captured. A dirty transition is the one followed by the
  other.
\<close>

definition setDirty :: "ref \<Rightarrow> bool \<Rightarrow> world \<Rightarrow> world" where
  "setDirty c b w = w\<lparr>heap := (heap w)(c := (heap w c)\<lparr>isDirty := b\<rparr>)\<rparr>"

definition fireDidChangeDirty :: "ref \<Rightarrow> world \<Rightarrow> world" where
  "fireDidChangeDirty c w = fold (\<lambda>l. fire (snd l)) (onDidChangeDirty (heap w c)) w"

definition dirtyTransition :: "ref \<Rightarrow> bool \<Rightarrow> world \<Rightarrow> world" where
  "dirtyTransition c b w = fireDidChangeDirty c (setDirty c b w)"

subsection \<open>Sequences of operations\<close>

datatype op = Register ref | Dispose nat | SetDirty ref bool | FireDidChangeDirty ref

fun step :: "op \<Rightarrow> world \<Rightarrow> world" where
  "step (Register c) w = snd (registerWorkingCopy c w)"
| "step (Dispose n) w = dispose_handle n w"
| "step (SetDirty c b) w = setDirty c b w"
| "step (FireDidChangeDirty c) w = fireDidChangeDirty c w"

definition run :: "op list \<Rightarrow> world \<Rightarrow> world" where
  "run ops w = fold step ops w"

text \<open>
  The service starts with an empty index. The working copies exist with their
  resources and capabilities, clean and without listeners.
\<close>

definition init :: "(ref \<Rightarrow> string) \<Rightarrow> (ref \<Rightarrow> 32 word) \<Rightarrow> world" where
  "init res caps =
     \<lparr>heap = (\<lambda>c. \<lparr>resource = res c, isDirty = False, capabilities = caps c,
                   onDidChangeDirty = []\<rparr>),
      mapResourceToWorkingCopy = [],
      handles = [],
      fired = []\<rparr>"

subsection \<open>The registered working copies, as the specification tells it\<close>

text \<open>
  The specification's account of which working copies are currently registered, to
  compare the index with: a working copy is registered by \<open>registerWorkingCopy\<close> and
  unregistered by disposing a handle that a registration of it returned. The first
  component lists, for every handle handed out so far, the working copy it is for.
\<close>

fun registered_step :: "op \<Rightarrow> ref list \<times> ref set \<Rightarrow> ref list \<times> ref set" where
  "registered_step (Register c) (hs, R) = (hs @ [c], insert c R)"
| "registered_step (Dispose n) (hs, R) = (if n < length hs then (hs, R - {hs ! n}) else (hs, R))"
| "registered_step (SetDirty c b) (hs, R) = (hs, R)"
| "registered_step (FireDidChangeDirty c) (hs, R) = (hs, R)"

definition registered :: "op list \<Rightarrow> ref set" where
  "registered ops = snd (fold registered_step ops ([], {}))"

text \<open>
  The set stored for a resource, empty when the key is absent, and the relation that
  the service keeps with the specification's account: the resources of the working copies
  do not change, the index has one entry for a key, no stored set is empty or holds an
  element twice, the set for a resource holds the registered copies of that resource,
  the handles are the ones handed out, every listener captured the copy it listens to,
  and a registered copy has a listener.
\<close>

definition copies_of :: "ref list tst \<Rightarrow> string \<Rightarrow> ref list" where
  "copies_of m k = (case tst_get m k of None \<Rightarrow> [] | Some ws \<Rightarrow> ws)"

definition consistent :: "(ref \<Rightarrow> string) \<Rightarrow> world \<Rightarrow> ref list \<times> ref set \<Rightarrow> bool" where
  "consistent res w a \<longleftrightarrow>
     (\<forall>c. resource (heap w c) = res c) \<and>
     distinct (map fst (mapResourceToWorkingCopy w)) \<and>
     (\<forall>k ws. tst_get (mapResourceToWorkingCopy w) k = Some ws \<longrightarrow> ws \<noteq> []) \<and>
     (\<forall>k. distinct (copies_of (mapResourceToWorkingCopy w) k)) \<and>
     (\<forall>k. set (copies_of (mapResourceToWorkingCopy w) k) = {c \<in> snd a. res c = k}) \<and>
     map fst (handles w) = fst a \<and>
     (\<forall>c l. l \<in> set (onDidChangeDirty (heap w c)) \<longrightarrow> snd l = c) \<and>
     (\<forall>c \<in> snd a. \<exists>n. (n, c) \<in> set (onDidChangeDirty (heap w c)))"

section \<open>The dirty files tracker\<close>

text \<open>
  Modelled from the spec: the enumerations \<open>AutoSaveMode\<close> and \<open>ModelState\<close>
  (vs/workbench/services/textfile/common/textfiles), the class \<open>NumberBadge\<close>
  (vs/workbench/services/activity/common/activity), \<open>nls.localize\<close> and
  \<open>arrays.distinct\<close> are not part of the sources at hand. Of the enumerations the
  tracker uses \<open>AFTER_SHORT_DELAY\<close> ("save shortly after edit") and \<open>PENDING_SAVE\<close>
  (the transient "pending save" state). The badge host takes a "numeric badge with
  label-formatter": the label of a badge is its formatter applied to its number.
  \<open>localize\<close> answers the message with \<open>{0}\<close> to \<open>{9}\<close> replaced by the arguments;
  a number is written in decimal. \<open>distinct_by\<close> deduplicates by the key function and
  keeps the first element of every key, in order.
\<close>

datatype AutoSaveMode = OFF | AFTER_SHORT_DELAY | AFTER_LONG_DELAY | ON_FOCUS_CHANGE | ON_WINDOW_CHANGE

datatype ModelState = SAVED | DIRTY | PENDING_SAVE | CONFLICT | ORPHAN | ERROR

record NumberBadge =
  number :: nat
  descriptorFn :: "nat \<Rightarrow> string"

definition getDescription :: "NumberBadge \<Rightarrow> string" where
  "getDescription b = descriptorFn b (number b)"

definition digit_char :: "nat \<Rightarrow> char" where
  "digit_char d = char_of (48 + d)"

function show_nat :: "nat \<Rightarrow> string" where
  "show_nat n = (if n < 10 then [digit_char n] else show_nat (n div 10) @ [digit_char (n mod 10)])"
  by pat_completeness auto
termination
  by (relation "measure id") auto

declare show_nat.simps [simp del]

definition digit_val :: "char \<Rightarrow> nat" where
  "digit_val c = of_char c - 48"

definition read_nat :: "string \<Rightarrow> nat" where
  "read_nat s = foldl (\<lambda>a c. 10 * a + digit_val c) 0 s"

definition is_digit :: "char \<Rightarrow> bool" where
  "is_digit c = (48 \<le> (of_char c :: nat) \<and> (of_char c :: nat) \<le> 57)"

fun localize_format :: "string \<Rightarrow> string list \<Rightarrow> string" where
  "localize_format [] args = []"
| "localize_format (x # xs) args =
     (case xs of
        d # y # rest \<Rightarrow>
          if x = CHR ''{'' \<and> y = CHR ''}'' \<and> is_digit d \<and> digit_val d < length args
          then args ! digit_val d @ localize_format rest args
          else x # localize_format xs args
      | _ \<Rightarrow> x # localize_format xs args)"

definition localize :: "string \<Rightarrow> string \<Rightarrow> string list \<Rightarrow> string" where
  "localize key message args = localize_format message args"

fun distinct_seen :: "('a \<Rightarrow> string) \<Rightarrow> string list \<Rightarrow> 'a list \<Rightarrow> 'a list" where
  "distinct_seen keyFn seen [] = []"
| "distinct_seen keyFn seen (x # xs) =
     (if keyFn x \<in> set seen then distinct_seen keyFn seen xs
      else x # distinct_seen keyFn (keyFn x # seen) xs)"

definition distinct_by :: "'a list \<Rightarrow> ('a \<Rightarrow> string) \<Rightarrow> 'a list" where
  "distinct_by array keyFn = distinct_seen keyFn [] array"

text \<open>
  The tracker's own state: \<open>lastKnownDirtyCount\<close>, \<open>None\<close> for \<open>undefined\<close>, and what
  \<open>badgeHandle\<close> holds, the badge shown at the moment, \<open>None\<close> when there is none.
\<close>

record DirtyFilesTracker =
  lastKnownDirtyCount :: "nat option"
  badgeHandle :: "NumberBadge option"

definition hasDirtyCount :: "DirtyFilesTracker \<Rightarrow> bool" where
  "hasDirtyCount t = (case lastKnownDirtyCount t of None \<Rightarrow> False | Some n \<Rightarrow> n > 0)"

definition updateActivityBadge :: "world \<Rightarrow> DirtyFilesTracker \<Rightarrow> DirtyFilesTracker" where
  "updateActivityBadge w t =
     (let count = dirtyCount w;
          t1 = t\<lparr>lastKnownDirtyCount := Some count\<rparr>
      in if count > 0
         then t1\<lparr>badgeHandle := Some
                \<lparr>number = count,
                 descriptorFn = (\<lambda>num. if num = 1 then localize ''dirtyFile'' ''1 unsaved file'' []
                                        else localize ''dirtyFiles'' ''{0} unsaved files'' [show_nat count])\<rparr>\<rparr>
         else t1\<lparr>badgeHandle := None\<rparr>)"

text \<open>
  \<open>AutoSave\<close> is the bit \<open>WorkingCopyCapabilities.AutoSave\<close>, whose declaration is not
  part of the sources at hand, and \<open>getAutoSaveMode\<close> is what the text file service
  answers when asked.
\<close>

definition onWorkingCopyDidChangeDirty ::
  "32 word \<Rightarrow> AutoSaveMode \<Rightarrow> world \<Rightarrow> ref \<Rightarrow> DirtyFilesTracker \<Rightarrow> DirtyFilesTracker" where
  "onWorkingCopyDidChangeDirty AutoSave getAutoSaveMode w copy t =
     (if (capabilities (heap w copy) AND AutoSave) \<noteq> 0 \<and> getAutoSaveMode = AFTER_SHORT_DELAY
      then t
      else (let gotDirty = isDirty (heap w copy) in
            if gotDirty \<or> hasDirtyCount t then updateActivityBadge w t else t))"

text \<open>
  A resource of the text file service is a value of any type \<open>'u\<close> with its
  \<open>toString\<close>. \<open>models_get\<close> is \<open>textFileService.models.get\<close>, \<open>isOpen\<close> is
  \<open>editorService.isOpen({ resource })\<close>. \<open>onTextFilesDirty\<close> answers the argument of
  its one call of \<open>editorService.openEditors\<close>.
\<close>

record ITextFileEditorModel =
  model_isDirty :: bool
  hasState :: "ModelState \<Rightarrow> bool"

record 'u TextFileModelChangeEvent =
  event_resource :: 'u

record 'u IResourceInput =
  input_resource :: 'u
  inactive :: bool
  pinned :: bool
  preserveFocus :: bool

definition shouldOpen :: "ITextFileEditorModel option \<Rightarrow> bool" where
  "shouldOpen model =
     (case model of None \<Rightarrow> False | Some m \<Rightarrow> model_isDirty m \<and> \<not> hasState m PENDING_SAVE)"

definition doOpenDirtyResources :: "'u list \<Rightarrow> 'u IResourceInput list" where
  "doOpenDirtyResources resources =
     map (\<lambda>r. \<lparr>input_resource = r, inactive = True, pinned = True, preserveFocus = True\<rparr>) resources"

definition onTextFilesDirty ::
  "('u \<Rightarrow> string) \<Rightarrow> ('u \<Rightarrow> ITextFileEditorModel option) \<Rightarrow> ('u \<Rightarrow> bool) \<Rightarrow>
   'u TextFileModelChangeEvent list \<Rightarrow> 'u IResourceInput list" where
  "onTextFilesDirty toString models_get isOpen e =
     doOpenDirtyResources
       (distinct_by
          (map event_resource
             (filter (\<lambda>e. shouldOpen (models_get (event_resource e)) \<and> \<not> isOpen (event_resource e)) e))
          toString)"

section \<open>Properties\<close>

lemma tst_get_set: "tst_get (tst_set k v t) k' = (if k' = k then Some v else tst_get t k')"
  by (induction t) (auto simp: tst_get_def)

lemma tst_keys_set: "fst ` set (tst_set k v t) = insert k (fst ` set t)"
  by (induction t) auto

lemma tst_distinct_set: "distinct (map fst t) \<Longrightarrow> distinct (map fst (tst_set k v t))"
proof (induction t)
  case Nil
  then show ?case by simp
next
  case (Cons p ps)
  have "fst ` set (tst_set k v ps) = insert k (fst ` set ps)" by (rule tst_keys_set)
  with Cons show ?case by auto
qed

lemma tst_get_delete: "tst_get (tst_delete k t) k' = (if k' = k then None else tst_get t k')"
  by (induction t) (auto simp: tst_get_def tst_delete_def)

lemma tst_distinct_delete: "distinct (map fst t) \<Longrightarrow> distinct (map fst (tst_delete k t))"
  by (simp add: tst_delete_def distinct_map_filter)

lemma tst_get_None_keys: "tst_get t k = None \<longleftrightarrow> k \<notin> fst ` set t"
  by (simp add: tst_get_def map_of_eq_None_iff)

lemma tst_set_same: "distinct (map fst t) \<Longrightarrow> tst_get t k = Some v \<Longrightarrow> tst_set k v t = t"
  by (induction t) (auto simp: tst_get_def split: if_splits)

text \<open>What the two operations do to the index, read through \<open>tst_get\<close>.\<close>

lemma register_index:
  "tst_get (mapResourceToWorkingCopy (snd (registerWorkingCopy c w))) k =
     (if k = resource (heap w c)
      then Some (set_add c (copies_of (mapResourceToWorkingCopy w) k))
      else tst_get (mapResourceToWorkingCopy w) k)"
  by (auto simp: registerWorkingCopy_def subscribe_def Let_def copies_of_def set_has_def
      set_add_def tst_get_set split: option.splits)

lemma register_keys_distinct:
  "distinct (map fst (mapResourceToWorkingCopy w)) \<Longrightarrow>
   distinct (map fst (mapResourceToWorkingCopy (snd (registerWorkingCopy c w))))"
  by (auto simp: registerWorkingCopy_def subscribe_def Let_def set_has_def
      intro!: tst_distinct_set split: option.splits)

lemma register_heap:
  "heap (snd (registerWorkingCopy c w)) =
     (heap w)(c := (heap w c)\<lparr>onDidChangeDirty := onDidChangeDirty (heap w c) @ [(length (handles w), c)]\<rparr>)"
  by (simp add: registerWorkingCopy_def subscribe_def Let_def split: option.splits prod.splits)

lemma register_handles:
  "handles (snd (registerWorkingCopy c w)) = handles w @ [(c, False)]"
  by (simp add: registerWorkingCopy_def subscribe_def Let_def split: option.splits prod.splits)

lemma register_fired: "fired (snd (registerWorkingCopy c w)) = fired w"
  by (simp add: registerWorkingCopy_def subscribe_def Let_def split: option.splits prod.splits)

lemma register_fst: "fst (registerWorkingCopy c w) = length (handles w)"
  by (simp add: registerWorkingCopy_def subscribe_def Let_def split: option.splits prod.splits)

lemma unregister_index:
  "tst_get (mapResourceToWorkingCopy (unregisterWorkingCopy c w)) k =
     (if k = resource (heap w c) \<and> c \<in> set (copies_of (mapResourceToWorkingCopy w) k)
      then (if remove1 c (copies_of (mapResourceToWorkingCopy w) k) = [] then None
            else Some (remove1 c (copies_of (mapResourceToWorkingCopy w) k)))
      else tst_get (mapResourceToWorkingCopy w) k)"
  by (auto simp: unregisterWorkingCopy_def fire_def Let_def copies_of_def set_delete_def
      tst_get_set tst_get_delete split: option.splits)

lemma unregister_keys_distinct:
  "distinct (map fst (mapResourceToWorkingCopy w)) \<Longrightarrow>
   distinct (map fst (mapResourceToWorkingCopy (unregisterWorkingCopy c w)))"
  by (auto simp: unregisterWorkingCopy_def fire_def Let_def set_delete_def
      intro!: tst_distinct_set tst_distinct_delete split: option.splits)

lemma unregister_heap: "heap (unregisterWorkingCopy c w) = heap w"
  by (simp add: unregisterWorkingCopy_def fire_def Let_def)

lemma unregister_handles: "handles (unregisterWorkingCopy c w) = handles w"
  by (simp add: unregisterWorkingCopy_def fire_def Let_def)

lemma unregister_fired:
  "fired (unregisterWorkingCopy c w) = fired w @ (if isDirty (heap w c) then [c] else [])"
  by (simp add: unregisterWorkingCopy_def fire_def Let_def)


lemma copies_of_register:
  "copies_of (mapResourceToWorkingCopy (snd (registerWorkingCopy c w))) k =
     (if k = resource (heap w c) then set_add c (copies_of (mapResourceToWorkingCopy w) k)
      else copies_of (mapResourceToWorkingCopy w) k)"
  unfolding copies_of_def [of "mapResourceToWorkingCopy (snd (registerWorkingCopy c w))"]
  by (simp add: register_index) (simp add: copies_of_def)

lemma copies_of_unregister:
  "distinct (copies_of (mapResourceToWorkingCopy w) k) \<Longrightarrow>
   copies_of (mapResourceToWorkingCopy (unregisterWorkingCopy c w)) k =
     (if k = resource (heap w c) then remove1 c (copies_of (mapResourceToWorkingCopy w) k)
      else copies_of (mapResourceToWorkingCopy w) k)"
  unfolding copies_of_def [of "mapResourceToWorkingCopy (unregisterWorkingCopy c w)"]
  by (simp add: unregister_index) (auto simp: copies_of_def remove1_idem split: option.splits)

lemma dispose_store_index:
  "mapResourceToWorkingCopy (dispose_store n w) = mapResourceToWorkingCopy w"
  by (simp add: dispose_store_def unsubscribe_def split: prod.splits)

lemma dispose_store_fired: "fired (dispose_store n w) = fired w"
  by (simp add: dispose_store_def unsubscribe_def split: prod.splits)

lemma dispose_store_handles:
  "n < length (handles w) \<Longrightarrow> map fst (handles (dispose_store n w)) = map fst (handles w)"
  by (auto simp: dispose_store_def unsubscribe_def map_update list_update_same_conv
      split: prod.splits)

lemma dispose_store_heap:
  "heap (dispose_store n w) c =
     (if c = fst (handles w ! n) \<and> \<not> snd (handles w ! n)
      then (heap w c)\<lparr>onDidChangeDirty := filter (\<lambda>l. fst l \<noteq> n) (onDidChangeDirty (heap w c))\<rparr>
      else heap w c)"
  by (auto simp: dispose_store_def unsubscribe_def split: prod.splits)

lemma dispose_handle_index:
  "n < length (handles w) \<Longrightarrow>
   mapResourceToWorkingCopy (dispose_handle n w) =
     mapResourceToWorkingCopy (unregisterWorkingCopy (fst (handles w ! n)) w)"
  by (simp add: dispose_handle_def dispose_store_index)

lemma dispose_handle_fired:
  "n < length (handles w) \<Longrightarrow>
   fired (dispose_handle n w) =
     fired w @ (if isDirty (heap w (fst (handles w ! n))) then [fst (handles w ! n)] else [])"
  by (simp add: dispose_handle_def dispose_store_fired unregister_fired)

lemma dispose_handle_heap:
  "n < length (handles w) \<Longrightarrow>
   heap (dispose_handle n w) c =
     (if c = fst (handles w ! n) \<and> \<not> snd (handles w ! n)
      then (heap w c)\<lparr>onDidChangeDirty := filter (\<lambda>l. fst l \<noteq> n) (onDidChangeDirty (heap w c))\<rparr>
      else heap w c)"
  by (simp add: dispose_handle_def dispose_store_heap unregister_heap unregister_handles)

lemma dispose_handle_handles:
  "n < length (handles w) \<Longrightarrow> map fst (handles (dispose_handle n w)) = map fst (handles w)"
  by (simp add: dispose_handle_def dispose_store_handles unregister_handles)

lemma fireDidChangeDirty_fired_aux:
  "fold (\<lambda>l. fire (snd l)) ls w = w\<lparr>fired := fired w @ map snd ls\<rparr>"
  by (induction ls arbitrary: w) (auto simp: fire_def)

lemma fireDidChangeDirty_eq:
  "fireDidChangeDirty c w = w\<lparr>fired := fired w @ map snd (onDidChangeDirty (heap w c))\<rparr>"
  by (simp add: fireDidChangeDirty_def fireDidChangeDirty_fired_aux)

lemma consistent_init: "consistent res (init res caps) ([], {})"
  by (simp add: consistent_def init_def copies_of_def tst_get_def)

lemma consistent_register:
  assumes "consistent res w (hs, R)"
  shows "consistent res (snd (registerWorkingCopy c w)) (hs @ [c], insert c R)"
proof -
  let ?w = "snd (registerWorkingCopy c w)"
  from assms have res: "\<And>c. resource (heap w c) = res c"
    and dk: "distinct (map fst (mapResourceToWorkingCopy w))"
    and ne: "\<And>k ws. tst_get (mapResourceToWorkingCopy w) k = Some ws \<Longrightarrow> ws \<noteq> []"
    and dc: "\<And>k. distinct (copies_of (mapResourceToWorkingCopy w) k)"
    and sc: "\<And>k. set (copies_of (mapResourceToWorkingCopy w) k) = {c \<in> R. res c = k}"
    and hs: "map fst (handles w) = hs"
    and ls: "\<And>c l. l \<in> set (onDidChangeDirty (heap w c)) \<Longrightarrow> snd l = c"
    and sub: "\<And>c. c \<in> R \<Longrightarrow> \<exists>n. (n, c) \<in> set (onDidChangeDirty (heap w c))"
    by (auto simp: consistent_def)
  have 1: "\<forall>c'. resource (heap ?w c') = res c'"
    by (simp add: register_heap res)
  have 2: "distinct (map fst (mapResourceToWorkingCopy ?w))"
    by (rule register_keys_distinct [OF dk])
  have 3: "\<forall>k ws. tst_get (mapResourceToWorkingCopy ?w) k = Some ws \<longrightarrow> ws \<noteq> []"
    using ne by (auto simp: register_index set_add_def split: if_splits)
  have 4: "\<forall>k. distinct (copies_of (mapResourceToWorkingCopy ?w) k)"
    using dc by (simp add: copies_of_register set_add_def)
  have 5: "\<forall>k. set (copies_of (mapResourceToWorkingCopy ?w) k) = {c' \<in> insert c R. res c' = k}"
    using sc by (auto simp: copies_of_register set_add_def res)
  have 6: "map fst (handles ?w) = hs @ [c]"
    by (simp add: register_handles hs)
  have 7: "\<forall>c' l. l \<in> set (onDidChangeDirty (heap ?w c')) \<longrightarrow> snd l = c'"
    using ls by (auto simp: register_heap)
  have 8: "\<forall>c' \<in> insert c R. \<exists>n. (n, c') \<in> set (onDidChangeDirty (heap ?w c'))"
    using sub by (auto simp: register_heap)
  from 1 2 3 4 5 6 7 8 show ?thesis
    unfolding consistent_def fst_conv snd_conv by blast
qed

lemma consistent_dispose:
  assumes "consistent res w (hs, R)" and n: "n < length hs"
  shows "consistent res (dispose_handle n w) (hs, R - {hs ! n})"
proof -
  let ?w = "dispose_handle n w"
  let ?c = "hs ! n"
  from assms have res: "\<And>c. resource (heap w c) = res c"
    and dk: "distinct (map fst (mapResourceToWorkingCopy w))"
    and ne: "\<And>k ws. tst_get (mapResourceToWorkingCopy w) k = Some ws \<Longrightarrow> ws \<noteq> []"
    and dc: "\<And>k. distinct (copies_of (mapResourceToWorkingCopy w) k)"
    and sc: "\<And>k. set (copies_of (mapResourceToWorkingCopy w) k) = {c \<in> R. res c = k}"
    and hs: "map fst (handles w) = hs"
    and ls: "\<And>c l. l \<in> set (onDidChangeDirty (heap w c)) \<Longrightarrow> snd l = c"
    and sub: "\<And>c. c \<in> R \<Longrightarrow> \<exists>n. (n, c) \<in> set (onDidChangeDirty (heap w c))"
    by (auto simp: consistent_def)
  from hs n have n': "n < length (handles w)" by (metis length_map)
  from hs n' have c: "fst (handles w ! n) = ?c" by (metis nth_map)
  have idx: "mapResourceToWorkingCopy ?w = mapResourceToWorkingCopy (unregisterWorkingCopy ?c w)"
    using dispose_handle_index [OF n'] c by simp
  have cp: "\<And>k. copies_of (mapResourceToWorkingCopy ?w) k =
     (if k = res ?c then remove1 ?c (copies_of (mapResourceToWorkingCopy w) k)
      else copies_of (mapResourceToWorkingCopy w) k)"
    unfolding idx using copies_of_unregister [OF dc] by (simp add: res)
  have 1: "\<forall>c'. resource (heap ?w c') = res c'"
    by (simp add: dispose_handle_heap [OF n'] res)
  have 2: "distinct (map fst (mapResourceToWorkingCopy ?w))"
    unfolding idx by (rule unregister_keys_distinct [OF dk])
  have 3: "\<forall>k ws. tst_get (mapResourceToWorkingCopy ?w) k = Some ws \<longrightarrow> ws \<noteq> []"
    unfolding idx using ne by (auto simp: unregister_index split: if_splits)
  have 4: "\<forall>k. distinct (copies_of (mapResourceToWorkingCopy ?w) k)"
    using dc by (simp add: cp)
  have 5: "\<forall>k. set (copies_of (mapResourceToWorkingCopy ?w) k) = {c' \<in> R - {?c}. res c' = k}"
    using sc dc by (auto simp: cp)
  have 6: "map fst (handles ?w) = hs"
    by (simp add: dispose_handle_handles [OF n'] hs)
  have 7: "\<forall>c' l. l \<in> set (onDidChangeDirty (heap ?w c')) \<longrightarrow> snd l = c'"
    using ls by (auto simp: dispose_handle_heap [OF n'])
  have 8: "\<forall>c' \<in> R - {?c}. \<exists>n. (n, c') \<in> set (onDidChangeDirty (heap ?w c'))"
    using sub by (auto simp: dispose_handle_heap [OF n'] c)
  from 1 2 3 4 5 6 7 8 show ?thesis
    unfolding consistent_def fst_conv snd_conv by blast
qed

lemma consistent_step:
  assumes "consistent res w a"
  shows "consistent res (step x w) (registered_step x a)"
proof (cases a)
  case (Pair hs R)
  show ?thesis
  proof (cases x)
    case (Register c)
    with Pair assms show ?thesis by (simp add: consistent_register)
  next
    case (Dispose n)
    show ?thesis
    proof (cases "n < length hs")
      case True
      with Pair Dispose assms show ?thesis by (simp add: consistent_dispose)
    next
      case False
      from assms Pair have "length (handles w) = length hs"
        by (metis consistent_def fst_conv length_map)
      with False Pair Dispose assms show ?thesis by (simp add: dispose_handle_def)
    qed
  next
    case (SetDirty c b)
    with Pair assms show ?thesis by (auto simp: consistent_def setDirty_def)
  next
    case (FireDidChangeDirty c)
    with Pair assms show ?thesis by (simp add: consistent_def fireDidChangeDirty_eq)
  qed
qed

lemma consistent_fold:
  "consistent res w a \<Longrightarrow> consistent res (fold step ops w) (fold registered_step ops a)"
  by (induction ops arbitrary: w a) (simp_all add: consistent_step)

lemma consistent_run:
  "consistent res (run ops (init res caps)) (fold registered_step ops ([], {}))"
  unfolding run_def by (rule consistent_fold [OF consistent_init])


lemma any_dirty_iff: "any_dirty h ws \<longleftrightarrow> (\<exists>c \<in> set ws. isDirty (h c))"
  by (induction ws) auto

lemma service_isDirty_copies:
  "service_isDirty w r \<longleftrightarrow> (\<exists>c \<in> set (copies_of (mapResourceToWorkingCopy w) r). isDirty (heap w c))"
  by (auto simp: service_isDirty_def copies_of_def any_dirty_iff split: option.splits)

lemma count_dirty_eq:
  "count_dirty h ws t = t + length (filter (\<lambda>c. isDirty (h c)) ws)"
  unfolding count_dirty_def by (induction ws arbitrary: t) auto

lemma forEach_count_dirty:
  "tst_forEach (count_dirty h) m t = t + length (filter (\<lambda>c. isDirty (h c)) (concat (map snd m)))"
  unfolding tst_forEach_def by (induction m arbitrary: t) (auto simp: count_dirty_eq)

lemma dirtyCount_eq:
  "dirtyCount w =
     length (filter (\<lambda>c. isDirty (heap w c)) (concat (map snd (mapResourceToWorkingCopy w))))"
  by (simp add: dirtyCount_def forEach_count_dirty)

lemma entry_copies_of:
  "distinct (map fst m) \<Longrightarrow> (k, ws) \<in> set m \<Longrightarrow> copies_of m k = ws"
  by (simp add: copies_of_def tst_get_def)

lemma distinct_all_copies:
  "distinct (map fst m) \<Longrightarrow> \<forall>p \<in> set m. distinct (snd p) \<and> (\<forall>c \<in> set (snd p). res c = fst p) \<Longrightarrow>
   distinct (concat (map snd m))"
proof (induction m)
  case Nil
  then show ?case by simp
next
  case (Cons p ps)
  have "set (snd p) \<inter> set (concat (map snd ps)) = {}"
  proof (rule ccontr)
    assume "set (snd p) \<inter> set (concat (map snd ps)) \<noteq> {}"
    then obtain c q where c: "c \<in> set (snd p)" and q: "q \<in> set ps" "c \<in> set (snd q)" by auto
    from Cons.prems c have "res c = fst p" by simp
    moreover from Cons.prems q have "res c = fst q" by simp
    moreover from q have "fst q \<in> fst ` set ps" by simp
    ultimately have "fst p \<in> fst ` set ps" by simp
    with Cons.prems show False by simp
  qed
  with Cons show ?case by simp
qed

lemma set_all_copies:
  assumes "distinct (map fst m)"
  shows "set (concat (map snd m)) = (\<Union>k. set (copies_of m k))"
proof
  show "set (concat (map snd m)) \<subseteq> (\<Union>k. set (copies_of m k))"
  proof
    fix c assume "c \<in> set (concat (map snd m))"
    then obtain p where p: "p \<in> set m" "c \<in> set (snd p)" by auto
    then have "copies_of m (fst p) = snd p"
      using entry_copies_of [OF assms, of "fst p" "snd p"] by simp
    with p have "c \<in> set (copies_of m (fst p))" by simp
    then show "c \<in> (\<Union>k. set (copies_of m k))" by blast
  qed
next
  show "(\<Union>k. set (copies_of m k)) \<subseteq> set (concat (map snd m))"
  proof
    fix c assume "c \<in> (\<Union>k. set (copies_of m k))"
    then obtain k where k: "c \<in> set (copies_of m k)" by auto
    then obtain ws where ws: "tst_get m k = Some ws" "c \<in> set ws"
      by (cases "tst_get m k") (auto simp: copies_of_def)
    then have "(k, ws) \<in> set m" by (simp add: tst_get_def map_of_SomeD)
    with ws show "c \<in> set (concat (map snd m))" by force
  qed
qed

lemma consistent_all_copies:
  assumes "consistent res w a"
  shows "distinct (concat (map snd (mapResourceToWorkingCopy w)))"
    and "set (concat (map snd (mapResourceToWorkingCopy w))) = snd a"
proof -
  let ?m = "mapResourceToWorkingCopy w"
  from assms have dk: "distinct (map fst ?m)"
    and dc: "\<And>k. distinct (copies_of ?m k)"
    and sc: "\<And>k. set (copies_of ?m k) = {c \<in> snd a. res c = k}"
    by (auto simp: consistent_def)
  have "\<forall>p \<in> set ?m. distinct (snd p) \<and> (\<forall>c \<in> set (snd p). res c = fst p)"
  proof
    fix p assume "p \<in> set ?m"
    then have "copies_of ?m (fst p) = snd p"
      using entry_copies_of [OF dk, of "fst p" "snd p"] by simp
    with dc [of "fst p"] sc [of "fst p"] show "distinct (snd p) \<and> (\<forall>c \<in> set (snd p). res c = fst p)"
      by auto
  qed
  with dk show "distinct (concat (map snd ?m))" by (rule distinct_all_copies)
  show "set (concat (map snd ?m)) = snd a"
    unfolding set_all_copies [OF dk] using sc by auto
qed

lemma consistent_isDirty:
  assumes "consistent res w a"
  shows "service_isDirty w r \<longleftrightarrow> (\<exists>c \<in> snd a. res c = r \<and> isDirty (heap w c))"
proof -
  from assms have "set (copies_of (mapResourceToWorkingCopy w) r) = {c \<in> snd a. res c = r}"
    by (simp add: consistent_def)
  then show ?thesis by (auto simp: service_isDirty_copies)
qed

lemma consistent_dirtyCount:
  assumes "consistent res w a"
  shows "dirtyCount w = card {c \<in> snd a. isDirty (heap w c)}"
proof -
  let ?all = "concat (map snd (mapResourceToWorkingCopy w))"
  have "{c \<in> snd a. isDirty (heap w c)} = set (filter (\<lambda>c. isDirty (heap w c)) ?all)"
    using consistent_all_copies(2) [OF assms] by auto
  moreover have "distinct (filter (\<lambda>c. isDirty (heap w c)) ?all)"
    using consistent_all_copies(1) [OF assms] by simp
  ultimately show ?thesis by (metis dirtyCount_eq distinct_card)
qed

lemma consistent_keys:
  assumes "consistent res w a"
  shows "r \<in> fst ` set (mapResourceToWorkingCopy w) \<longleftrightarrow> (\<exists>c \<in> snd a. res c = r)"
proof -
  let ?m = "mapResourceToWorkingCopy w"
  from assms have ne: "\<And>ws. tst_get ?m r = Some ws \<Longrightarrow> ws \<noteq> []"
    and sc: "set (copies_of ?m r) = {c \<in> snd a. res c = r}"
    by (auto simp: consistent_def)
  show ?thesis
  proof (cases "tst_get ?m r")
    case None
    then have "copies_of ?m r = []" by (simp add: copies_of_def)
    with sc None show ?thesis by (auto simp: tst_get_None_keys)
  next
    case (Some ws)
    then have "copies_of ?m r = ws" by (simp add: copies_of_def)
    moreover from Some have "ws \<noteq> []" by (rule ne)
    moreover from Some have "r \<in> fst ` set ?m"
      using tst_get_None_keys [of ?m r] by simp
    ultimately show ?thesis using sc by (cases ws) auto
  qed
qed

lemma consistent_registered_member:
  assumes "consistent res w a"
  shows "c \<in> snd a \<longleftrightarrow> c \<in> set (copies_of (mapResourceToWorkingCopy w) (resource (heap w c)))"
proof -
  from assms have "resource (heap w c) = res c"
    and "set (copies_of (mapResourceToWorkingCopy w) (res c)) = {c' \<in> snd a. res c' = res c}"
    by (auto simp: consistent_def)
  then show ?thesis by simp
qed

lemma register_index_present:
  assumes "c \<in> set (copies_of (mapResourceToWorkingCopy w) (resource (heap w c)))"
  shows "mapResourceToWorkingCopy (snd (registerWorkingCopy c w)) = mapResourceToWorkingCopy w"
proof (cases "tst_get (mapResourceToWorkingCopy w) (resource (heap w c))")
  case None
  with assms show ?thesis by (simp add: copies_of_def)
next
  case (Some ws)
  with assms have "c \<in> set ws" by (simp add: copies_of_def)
  with Some show ?thesis
    by (simp add: registerWorkingCopy_def subscribe_def Let_def set_has_def)
qed

lemma unregister_index_absent:
  assumes "c \<notin> set (copies_of (mapResourceToWorkingCopy w) (resource (heap w c)))"
  shows "mapResourceToWorkingCopy (unregisterWorkingCopy c w) = mapResourceToWorkingCopy w"
proof (cases "tst_get (mapResourceToWorkingCopy w) (resource (heap w c))")
  case None
  then show ?thesis by (simp add: unregisterWorkingCopy_def fire_def Let_def)
next
  case (Some ws)
  with assms have "c \<notin> set ws" by (simp add: copies_of_def)
  with Some show ?thesis
    by (simp add: unregisterWorkingCopy_def fire_def Let_def set_delete_def)
qed

lemma count_list_distinct: "distinct xs \<Longrightarrow> x \<in> set xs \<Longrightarrow> count_list xs x = 1"
  by (induction xs) auto

lemma map_snd_all_same:
  "\<forall>l \<in> set ls. snd l = c \<Longrightarrow> map snd ls = replicate (length ls) c"
  by (induction ls) auto

lemma dirtyTransition_fired:
  "fired (dirtyTransition c b w) = fired w @ map snd (onDidChangeDirty (heap w c))"
  by (simp add: dirtyTransition_def fireDidChangeDirty_eq setDirty_def)


subsection \<open>Decimal numbers and messages\<close>

lemma digit_val_digit_char: "d < 10 \<Longrightarrow> digit_val (digit_char d) = d"
  by (simp add: digit_val_def digit_char_def)

lemma read_nat_snoc: "read_nat (s @ [c]) = 10 * read_nat s + digit_val c"
  by (simp add: read_nat_def)

lemma read_show_nat: "read_nat (show_nat n) = n"
proof (induction n rule: show_nat.induct)
  case (1 n)
  show ?case
  proof (cases "n < 10")
    case True
    then show ?thesis
      by (simp add: show_nat.simps [of n] read_nat_def digit_val_digit_char)
  next
    case False
    with 1 have "read_nat (show_nat (n div 10)) = n div 10" by simp
    with False show ?thesis
      by (simp add: show_nat.simps [of n] read_nat_snoc digit_val_digit_char)
  qed
qed

lemma is_digit_0: "is_digit CHR ''0''"
  by (simp add: is_digit_def)

lemma digit_val_0: "digit_val CHR ''0'' = 0"
  by (simp add: digit_val_def)

lemma localize_format_plain:
  "x \<noteq> CHR ''{'' \<Longrightarrow> localize_format (x # xs) args = x # localize_format xs args"
  by (simp split: list.splits)

lemma localize_format_hole:
  "is_digit d \<Longrightarrow> digit_val d < length args \<Longrightarrow>
   localize_format (CHR ''{'' # d # CHR ''}'' # rest) args = args ! digit_val d @ localize_format rest args"
  by simp

lemma localize_dirtyFiles:
  "localize ''dirtyFiles'' ''{0} unsaved files'' [s] = s @ '' unsaved files''"
  by (simp add: localize_def localize_format_plain localize_format_hole is_digit_0 digit_val_0
      del: localize_format.simps(2))

lemma localize_dirtyFile:
  "localize ''dirtyFile'' ''1 unsaved file'' [] = ''1 unsaved file''"
  by (simp add: localize_def localize_format_plain del: localize_format.simps(2))

subsection \<open>Deduplication\<close>

lemma distinct_seen_subset: "set (distinct_seen f seen xs) \<subseteq> set xs"
  by (induction xs arbitrary: seen) auto

lemma distinct_seen_keys: "f ` set (distinct_seen f seen xs) = f ` set xs - set seen"
  by (induction xs arbitrary: seen) auto

lemma distinct_seen_distinct: "distinct (map f (distinct_seen f seen xs))"
proof (induction xs arbitrary: seen)
  case Nil
  then show ?case by simp
next
  case (Cons x xs)
  have "f x \<notin> f ` set (distinct_seen f (f x # seen) xs)"
    by (simp add: distinct_seen_keys)
  with Cons show ?case by simp
qed


subsection \<open>The inputs of the editor service\<close>

lemma doOpenDirtyResources_resources: "map input_resource (doOpenDirtyResources rs) = rs"
  by (induction rs) (simp_all add: doOpenDirtyResources_def)

lemma doOpenDirtyResources_options:
  "q \<in> set (doOpenDirtyResources rs) \<Longrightarrow> inactive q \<and> pinned q \<and> preserveFocus q"
  by (induction rs) (auto simp: doOpenDirtyResources_def)

lemma shouldOpen_iff:
  "shouldOpen model \<longleftrightarrow> (\<exists>m. model = Some m \<and> model_isDirty m \<and> \<not> hasState m PENDING_SAVE)"
  by (cases model) (simp_all add: shouldOpen_def)

lemma selected_resources:
  "set (map event_resource (filter (\<lambda>e. shouldOpen (models_get (event_resource e)) \<and>
        \<not> isOpen (event_resource e)) es)) =
   {r \<in> event_resource ` set es.
      (\<exists>m. models_get r = Some m \<and> model_isDirty m \<and> \<not> hasState m PENDING_SAVE) \<and> \<not> isOpen r}"
  unfolding shouldOpen_iff by (induction es) auto


lemmas world_defs =
  run_def init_def registerWorkingCopy_def unregisterWorkingCopy_def dispose_handle_def
  dispose_store_def subscribe_def unsubscribe_def setDirty_def fireDidChangeDirty_def
  dirtyTransition_def fire_def tst_get_def tst_delete_def set_has_def set_add_def
  set_delete_def Let_def registered_def

subsection \<open>Dirty state of a resource\<close>

text \<open>
  C3. After every sequence of operations, \<open>isDirty(r)\<close> of the service is true if and
  only if at least one working copy that is currently registered, in the specification's
  sense, has the resource \<open>r\<close> and answers \<open>isDirty()\<close> with true; in particular it is
  false when no copy is registered under \<open>r\<close>. \<open>service_isDirty\<close> is a function of the
  state and answers a truth value only: it leaves the index as it is.
\<close>

theorem isDirty_is_or_over_registered:
  "(service_isDirty (run ops (init res caps)) r \<longleftrightarrow>
      (\<exists>c \<in> registered ops. res c = r \<and> isDirty (heap (run ops (init res caps)) c))) \<and>
   ((\<forall>c \<in> registered ops. res c \<noteq> r) \<longrightarrow> \<not> service_isDirty (run ops (init res caps)) r)"
proof -
  have "consistent res (run ops (init res caps)) (fold registered_step ops ([], {}))"
    by (rule consistent_run)
  from consistent_isDirty [OF this, of r] show ?thesis
    by (auto simp: registered_def)
qed

theorem isDirty_is_or_over_registered_witness:
  "registered [Register 0, Register 1, SetDirty 1 True, Register 2] = {0, 1, 2} \<and>
   isDirty (heap (run [Register 0, Register 1, SetDirty 1 True, Register 2]
                 (init (\<lambda>c. if c = 2 then ''/f2'' else ''/f1'') (\<lambda>c. 0))) 1) \<and>
   service_isDirty (run [Register 0, Register 1, SetDirty 1 True, Register 2]
                 (init (\<lambda>c. if c = 2 then ''/f2'' else ''/f1'') (\<lambda>c. 0))) ''/f1'' \<and>
   \<not> service_isDirty (run [Register 0, Register 1, SetDirty 1 True, Register 2]
                 (init (\<lambda>c. if c = 2 then ''/f2'' else ''/f1'') (\<lambda>c. 0))) ''/f3''"
proof -
  let ?ops = "[Register 0, Register 1, SetDirty 1 True, Register 2]"
  let ?res = "\<lambda>c::nat. if c = 2 then ''/f2'' else ''/f1''"
  let ?w = "run ?ops (init ?res (\<lambda>c. 0))"
  have r: "registered ?ops = {0, 1, 2}"
    by (auto simp: world_defs)
  have d: "isDirty (heap ?w 1)"
    by (simp add: world_defs)
  from r d have a: "\<exists>c \<in> registered ?ops. ?res c = ''/f1'' \<and> isDirty (heap ?w c)"
    by simp
  from r have b: "\<forall>c \<in> registered ?ops. ?res c \<noteq> ''/f3''"
    by simp
  from a have "service_isDirty ?w ''/f1''"
    using isDirty_is_or_over_registered [where ops = ?ops and res = ?res and caps = "\<lambda>c. 0" and r = "''/f1''"] by blast
  moreover from b have "\<not> service_isDirty ?w ''/f3''"
    using isDirty_is_or_over_registered [where ops = ?ops and res = ?res and caps = "\<lambda>c. 0" and r = "''/f3''"] by blast
  ultimately show ?thesis using r d by blast
qed

subsection \<open>The number of dirty working copies\<close>

text \<open>
  C4. After every sequence of operations, \<open>dirtyCount\<close> is the number of currently
  registered working copies, whatever their resources, that answer \<open>isDirty()\<close> with
  true; the registered copies form a set, so each is counted once.
\<close>

theorem dirtyCount_counts_registered:
  "dirtyCount (run ops (init res caps)) =
     card {c \<in> registered ops. isDirty (heap (run ops (init res caps)) c)}"
proof -
  have "consistent res (run ops (init res caps)) (fold registered_step ops ([], {}))"
    by (rule consistent_run)
  from consistent_dirtyCount [OF this] show ?thesis
    by (simp add: registered_def)
qed

subsection \<open>Keys of the index\<close>

text \<open>
  C5. After every sequence of operations, a resource is a key of the index if and only
  if the set stored under it is not empty, and if and only if at least one working copy
  is currently registered for it; unregistering the only copy stored for a resource
  deletes the key.
\<close>

theorem key_present_iff_registered:
  "(r \<in> fst ` set (mapResourceToWorkingCopy (run ops (init res caps))) \<longleftrightarrow>
      (\<exists>ws. tst_get (mapResourceToWorkingCopy (run ops (init res caps))) r = Some ws \<and> ws \<noteq> [])) \<and>
   (r \<in> fst ` set (mapResourceToWorkingCopy (run ops (init res caps))) \<longleftrightarrow>
      (\<exists>c \<in> registered ops. res c = r)) \<and>
   (tst_get (mapResourceToWorkingCopy (run ops (init res caps))) (res c) = Some [c] \<longrightarrow>
      res c \<notin> fst ` set (mapResourceToWorkingCopy
                  (unregisterWorkingCopy c (run ops (init res caps)))))"
proof -
  let ?w = "run ops (init res caps)"
  let ?m = "mapResourceToWorkingCopy ?w"
  have con: "consistent res ?w (fold registered_step ops ([], {}))"
    by (rule consistent_run)
  then have ne: "\<And>k ws. tst_get ?m k = Some ws \<Longrightarrow> ws \<noteq> []"
    and rs: "\<And>c. resource (heap ?w c) = res c"
    by (auto simp: consistent_def)
  have 1: "r \<in> fst ` set ?m \<longleftrightarrow> (\<exists>ws. tst_get ?m r = Some ws \<and> ws \<noteq> [])"
    using ne [of r] tst_get_None_keys [of ?m r] by (cases "tst_get ?m r") auto
  have 2: "r \<in> fst ` set ?m \<longleftrightarrow> (\<exists>c \<in> registered ops. res c = r)"
    using consistent_keys [OF con, of r] by (simp add: registered_def)
  have 3: "tst_get ?m (res c) = Some [c] \<longrightarrow>
      res c \<notin> fst ` set (mapResourceToWorkingCopy (unregisterWorkingCopy c ?w))"
  proof
    assume "tst_get ?m (res c) = Some [c]"
    then have "tst_get (mapResourceToWorkingCopy (unregisterWorkingCopy c ?w)) (res c) = None"
      by (simp add: unregister_index rs copies_of_def)
    then show "res c \<notin> fst ` set (mapResourceToWorkingCopy (unregisterWorkingCopy c ?w))"
      by (simp add: tst_get_None_keys)
  qed
  from 1 2 3 show ?thesis by blast
qed

theorem key_present_iff_registered_witness:
  "tst_get (mapResourceToWorkingCopy (run [Register 0, Register 1, Dispose 0]
      (init (\<lambda>c. ''/f1'') (\<lambda>c. 0)))) ((\<lambda>c. ''/f1'') (1::nat)) = Some [1] \<and>
   (\<lambda>c. ''/f1'') (1::nat) \<in> fst ` set (mapResourceToWorkingCopy (run [Register 0, Register 1, Dispose 0]
      (init (\<lambda>c. ''/f1'') (\<lambda>c. 0)))) \<and>
   (\<exists>c \<in> registered [Register 0, Register 1, Dispose 0]. (\<lambda>c. ''/f1'') c = ''/f1'') \<and>
   (\<lambda>c. ''/f1'') (1::nat) \<notin> fst ` set (mapResourceToWorkingCopy (unregisterWorkingCopy 1
      (run [Register 0, Register 1, Dispose 0] (init (\<lambda>c. ''/f1'') (\<lambda>c. 0)))))"
proof -
  let ?ops = "[Register 0, Register 1, Dispose 0]"
  let ?res = "\<lambda>c::nat. ''/f1''"
  let ?w = "run ?ops (init ?res (\<lambda>c. 0))"
  have a: "tst_get (mapResourceToWorkingCopy ?w) (?res 1) = Some [1]"
    by (simp add: world_defs)
  have b: "?res 1 \<in> fst ` set (mapResourceToWorkingCopy ?w)"
    by (simp add: world_defs)
  note t = key_present_iff_registered [where r = "?res 1" and ops = ?ops and res = ?res and caps = "\<lambda>c. 0" and c = 1]
  from b t have c: "\<exists>c \<in> registered ?ops. ?res c = ''/f1''" by blast
  from a t have d: "?res 1 \<notin> fst ` set (mapResourceToWorkingCopy (unregisterWorkingCopy 1 ?w))"
    by blast
  from a b c d show ?thesis by blast
qed


subsection \<open>Disposing the handle of a dirty working copy\<close>

text \<open>
  C2. When the handle of a registered working copy \<open>c\<close> is disposed while \<open>c\<close> answers
  \<open>isDirty()\<close> with true, the disposal fires exactly one more \<open>onDidChangeDirty\<close> event of
  the service, carrying \<open>c\<close>, and afterwards \<open>c\<close> is in no set of the index.
\<close>

theorem dispose_dirty_fires_once_and_removes:
  assumes "n < length (handles (run ops (init res caps)))"
    and "c = fst (handles (run ops (init res caps)) ! n)"
    and "c \<in> registered ops"
    and "isDirty (heap (run ops (init res caps)) c)"
  shows "fired (dispose_handle n (run ops (init res caps))) = fired (run ops (init res caps)) @ [c] \<and>
         (\<forall>k. c \<notin> set (copies_of (mapResourceToWorkingCopy
                  (dispose_handle n (run ops (init res caps)))) k))"
proof -
  let ?w = "run ops (init res caps)"
  let ?a = "fold registered_step ops ([], {})"
  have con: "consistent res ?w (fst ?a, snd ?a)"
    using consistent_run [of res ops caps] by simp
  then have hs: "map fst (handles ?w) = fst ?a" by (simp add: consistent_def)
  with assms(1) have n: "n < length (fst ?a)" by (metis length_map)
  from hs assms(1,2) have c: "fst ?a ! n = c" by (metis nth_map)
  from consistent_dispose [OF con n]
  have "\<And>k. set (copies_of (mapResourceToWorkingCopy (dispose_handle n ?w)) k) =
          {c' \<in> snd ?a - {c}. res c' = k}"
    unfolding c by (simp add: consistent_def)
  then have "\<forall>k. c \<notin> set (copies_of (mapResourceToWorkingCopy (dispose_handle n ?w)) k)"
    by simp
  moreover have "fired (dispose_handle n ?w) = fired ?w @ [c]"
    using assms(1,2,4) by (simp add: dispose_handle_fired)
  ultimately show ?thesis by simp
qed

theorem dispose_dirty_fires_once_and_removes_witness:
  "(0::nat) < length (handles (run [Register 7, SetDirty 7 True] (init (\<lambda>c. ''/f1'') (\<lambda>c. 0)))) \<and>
   7 = fst (handles (run [Register 7, SetDirty 7 True] (init (\<lambda>c. ''/f1'') (\<lambda>c. 0))) ! 0) \<and>
   7 \<in> registered [Register 7, SetDirty 7 True] \<and>
   isDirty (heap (run [Register 7, SetDirty 7 True] (init (\<lambda>c. ''/f1'') (\<lambda>c. 0))) 7) \<and>
   fired (dispose_handle 0 (run [Register 7, SetDirty 7 True] (init (\<lambda>c. ''/f1'') (\<lambda>c. 0)))) = [7] \<and>
   7 \<notin> set (copies_of (mapResourceToWorkingCopy
         (dispose_handle 0 (run [Register 7, SetDirty 7 True] (init (\<lambda>c. ''/f1'') (\<lambda>c. 0))))) ''/f1'')"
proof -
  let ?ops = "[Register 7, SetDirty 7 True]"
  let ?w = "run ?ops (init (\<lambda>c. ''/f1'') (\<lambda>c. 0))"
  have 1: "0 < length (handles ?w)" by (simp add: world_defs)
  have 2: "7 = fst (handles ?w ! 0)" by (simp add: world_defs)
  have 3: "7 \<in> registered ?ops" by (simp add: world_defs)
  have 4: "isDirty (heap ?w 7)" by (simp add: world_defs)
  have 5: "fired ?w = []" by (simp add: world_defs)
  from dispose_dirty_fires_once_and_removes [OF 1 2 3 4] 5
  have "fired (dispose_handle 0 ?w) = [7]"
    and "7 \<notin> set (copies_of (mapResourceToWorkingCopy (dispose_handle 0 ?w)) ''/f1'')"
    by simp_all
  with 1 2 3 4 show ?thesis by blast
qed

subsection \<open>Registration is not counted\<close>

text \<open>
  C10. When the same working copy \<open>c\<close> is registered twice, disposing either one of the
  two handles takes \<open>c\<close> out of the index altogether: \<open>c\<close> is in no stored set,
  \<open>isDirty\<close> of its resource is decided by the other registered copies alone, and
  \<open>dirtyCount\<close> counts the other registered copies alone. The other handle is not
  disposed and its listener is still subscribed to \<open>c\<close>.
\<close>

theorem double_registration_not_counted:
  assumes "registerWorkingCopy c (run ops (init res caps)) = (h1, w1)"
    and "registerWorkingCopy c w1 = (h2, w2)"
    and "(h, h') = (h1, h2) \<or> (h, h') = (h2, h1)"
    and "w3 = dispose_handle h w2"
  shows "(\<forall>k. c \<notin> set (copies_of (mapResourceToWorkingCopy w3) k)) \<and>
         (service_isDirty w3 (res c) \<longleftrightarrow>
            (\<exists>c' \<in> registered ops - {c}. res c' = res c \<and> isDirty (heap w3 c'))) \<and>
         dirtyCount w3 = card {c' \<in> registered ops - {c}. isDirty (heap w3 c')} \<and>
         (h', c) \<in> set (onDidChangeDirty (heap w3 c)) \<and>
         handles w3 ! h' = (c, False)"
proof -
  let ?w = "run ops (init res caps)"
  let ?a = "fold registered_step ops ([], {})"
  let ?n = "length (handles ?w)"
  have con: "consistent res ?w (fst ?a, snd ?a)"
    using consistent_run [of res ops caps] by simp
  then have hs: "length (fst ?a) = ?n" by (metis consistent_def fst_conv length_map)
  from assms(1) have h1: "h1 = ?n" and w1: "w1 = snd (registerWorkingCopy c ?w)"
    using register_fst [of c ?w] by simp_all
  from assms(2) have h2: "h2 = Suc ?n" and w2: "w2 = snd (registerWorkingCopy c w1)"
    using register_fst [of c w1] by (simp_all add: w1 register_handles)
  have con2: "consistent res w2 (fst ?a @ [c] @ [c], insert c (snd ?a))"
    using consistent_register [OF consistent_register [OF con, of c], of c]
    by (simp add: w1 w2)
  from assms(3) h1 h2 have h: "h = ?n \<or> h = Suc ?n" by auto
  then have hlt: "h < length (fst ?a @ [c] @ [c])" and hc: "(fst ?a @ [c] @ [c]) ! h = c"
    using hs by (auto simp: nth_append)
  from consistent_dispose [OF con2 hlt]
  have con3: "consistent res w3 (fst ?a @ [c] @ [c], snd ?a - {c})"
    unfolding hc by (simp add: assms(4))
  have R: "snd ?a = registered ops" by (simp add: registered_def)
  from con3 have a: "\<forall>k. c \<notin> set (copies_of (mapResourceToWorkingCopy w3) k)"
    by (simp add: consistent_def)
  have b: "service_isDirty w3 (res c) \<longleftrightarrow>
            (\<exists>c' \<in> registered ops - {c}. res c' = res c \<and> isDirty (heap w3 c'))"
    using consistent_isDirty [OF con3, of "res c"] by (simp add: R)
  have d: "dirtyCount w3 = card {c' \<in> registered ops - {c}. isDirty (heap w3 c')}"
    using consistent_dirtyCount [OF con3] by (simp add: R)
  have hw2: "handles w2 = handles ?w @ [(c, False), (c, False)]"
    by (simp add: w1 w2 register_handles)
  have lw2: "onDidChangeDirty (heap w2 c) = onDidChangeDirty (heap ?w c) @ [(?n, c), (Suc ?n, c)]"
    by (simp add: w1 w2 register_heap register_handles)
  from h have hlt2: "h < length (handles w2)" by (auto simp: hw2)
  from assms(3) h1 h2 have hh': "h' \<noteq> h" "h' = ?n \<or> h' = Suc ?n" by auto
  have mem2: "(h', c) \<in> set (onDidChangeDirty (heap w2 c))"
    using hh'(2) by (auto simp: lw2)
  have "set (filter (\<lambda>l. fst l \<noteq> h) (onDidChangeDirty (heap w2 c))) \<subseteq>
          set (onDidChangeDirty (heap w3 c))"
    unfolding assms(4) by (auto simp: dispose_handle_heap [OF hlt2])
  moreover have "(h', c) \<in> set (filter (\<lambda>l. fst l \<noteq> h) (onDidChangeDirty (heap w2 c)))"
    using mem2 hh'(1) by simp
  ultimately have e: "(h', c) \<in> set (onDidChangeDirty (heap w3 c))"
    by blast
  have f: "handles w3 ! h' = (c, False)"
    unfolding assms(4) using hh' h
    by (auto simp: dispose_handle_def dispose_store_def unsubscribe_def unregister_handles hw2
        nth_append nth_list_update split: prod.splits)
  from a b d e f show ?thesis by blast
qed


theorem double_registration_not_counted_witness:
  "isDirty (heap (run [SetDirty 0 True] (init (\<lambda>c. ''/f1'') (\<lambda>c. 0))) 0) \<and>
   \<not> service_isDirty
      (dispose_handle 0 (snd (registerWorkingCopy 0 (snd (registerWorkingCopy 0
         (run [SetDirty 0 True] (init (\<lambda>c. ''/f1'') (\<lambda>c. 0)))))))) ''/f1'' \<and>
   dirtyCount
      (dispose_handle 0 (snd (registerWorkingCopy 0 (snd (registerWorkingCopy 0
         (run [SetDirty 0 True] (init (\<lambda>c. ''/f1'') (\<lambda>c. 0)))))))) = 0 \<and>
   (1, 0) \<in> set (onDidChangeDirty (heap
      (dispose_handle 0 (snd (registerWorkingCopy 0 (snd (registerWorkingCopy 0
         (run [SetDirty 0 True] (init (\<lambda>c. ''/f1'') (\<lambda>c. 0)))))))) 0))"
proof -
  let ?ops = "[SetDirty 0 True]"
  let ?res = "\<lambda>c::nat. ''/f1''"
  let ?w = "run ?ops (init ?res (\<lambda>c. 0))"
  let ?w1 = "snd (registerWorkingCopy 0 ?w)"
  let ?w2 = "snd (registerWorkingCopy 0 ?w1)"
  let ?w3 = "dispose_handle 0 ?w2"
  have 1: "registerWorkingCopy 0 ?w = (0, ?w1)"
    by (simp add: prod_eq_iff register_fst) (simp add: world_defs)
  have 2: "registerWorkingCopy 0 ?w1 = (1, ?w2)"
    by (simp add: prod_eq_iff register_fst register_handles) (simp add: world_defs)
  have 3: "(0::nat, 1::nat) = (0, 1) \<or> (0::nat, 1::nat) = (1, 0)"
    by simp
  have r: "registered ?ops = {}"
    by (simp add: world_defs)
  have d: "isDirty (heap ?w 0)"
    by (simp add: world_defs)
  note t = double_registration_not_counted [OF 1 2 3 refl]
  from t r have "\<not> service_isDirty ?w3 ''/f1''" by simp
  moreover from t r have "dirtyCount ?w3 = 0" by simp
  moreover from t have "(1, 0) \<in> set (onDidChangeDirty (heap ?w3 0))" by simp
  ultimately show ?thesis using d by blast
qed

subsection \<open>Registering a working copy a second time\<close>

text \<open>
  C1, as the claim states it, fails: after two registrations of the working copy \<open>0\<close>
  its resource's set has the one entry, but the copy has two listeners of the service,
  and one dirty transition fires the service's \<open>onDidChangeDirty\<close> twice.
\<close>

theorem second_registration_fires_twice:
  "copies_of (mapResourceToWorkingCopy
      (run [Register 0, Register 0] (init (\<lambda>c. ''/f1'') (\<lambda>c. 0)))) ''/f1'' = [0] \<and>
   onDidChangeDirty (heap (run [Register 0, Register 0] (init (\<lambda>c. ''/f1'') (\<lambda>c. 0))) 0) =
      [(0, 0), (1, 0)] \<and>
   fired (run [Register 0, Register 0] (init (\<lambda>c. ''/f1'') (\<lambda>c. 0))) = [] \<and>
   fired (dirtyTransition 0 True
      (run [Register 0, Register 0] (init (\<lambda>c. ''/f1'') (\<lambda>c. 0)))) = [0, 0]"
  by (simp add: world_defs copies_of_def)

text \<open>
  C1, amended. When \<open>registerWorkingCopy(c)\<close> is called while \<open>c\<close> is registered, the
  index stays as it is and the set of the resource holds \<open>c\<close> exactly once; the call
  subscribes one more listener to \<open>c\<close>, so that \<open>c\<close> has at least two, and a dirty
  transition of \<open>c\<close> fires the service's \<open>onDidChangeDirty\<close> once for every listener.
\<close>

theorem second_registration_adds_subscription:
  assumes "c \<in> registered ops"
    and "registerWorkingCopy c (run ops (init res caps)) = (n, w')"
  shows "mapResourceToWorkingCopy w' = mapResourceToWorkingCopy (run ops (init res caps)) \<and>
         count_list (copies_of (mapResourceToWorkingCopy w') (res c)) c = 1 \<and>
         onDidChangeDirty (heap w' c) =
            onDidChangeDirty (heap (run ops (init res caps)) c) @ [(n, c)] \<and>
         2 \<le> length (onDidChangeDirty (heap w' c)) \<and>
         fired (dirtyTransition c b w') =
            fired w' @ replicate (length (onDidChangeDirty (heap w' c))) c"
proof -
  let ?w = "run ops (init res caps)"
  let ?a = "fold registered_step ops ([], {})"
  have con: "consistent res ?w (fst ?a, snd ?a)"
    using consistent_run [of res ops caps] by simp
  from assms(1) have cR: "c \<in> snd (fst ?a, snd ?a)" by (simp add: registered_def)
  from assms(2) have n: "n = length (handles ?w)" and w': "w' = snd (registerWorkingCopy c ?w)"
    using register_fst [of c ?w] by simp_all
  from con have rs: "resource (heap ?w c) = res c" by (simp add: consistent_def)
  from cR have mem: "c \<in> set (copies_of (mapResourceToWorkingCopy ?w) (resource (heap ?w c)))"
    using consistent_registered_member [OF con, of c] by simp
  have 1: "mapResourceToWorkingCopy w' = mapResourceToWorkingCopy ?w"
    unfolding w' by (rule register_index_present [OF mem])
  from con have "distinct (copies_of (mapResourceToWorkingCopy ?w) (res c))"
    by (simp add: consistent_def)
  with mem have 2: "count_list (copies_of (mapResourceToWorkingCopy w') (res c)) c = 1"
    by (simp add: 1 rs count_list_distinct)
  have 3: "onDidChangeDirty (heap w' c) = onDidChangeDirty (heap ?w c) @ [(n, c)]"
    by (simp add: w' n register_heap)
  from con cR obtain k where "(k, c) \<in> set (onDidChangeDirty (heap ?w c))"
    unfolding consistent_def by fastforce
  then have "onDidChangeDirty (heap ?w c) \<noteq> []" by auto
  then have "1 \<le> length (onDidChangeDirty (heap ?w c))"
    by (cases "onDidChangeDirty (heap ?w c)") simp_all
  with 3 have 4: "2 \<le> length (onDidChangeDirty (heap w' c))" by simp
  have con': "consistent res w' (fst ?a @ [c], insert c (snd ?a))"
    unfolding w' by (rule consistent_register [OF con])
  then have "\<forall>l \<in> set (onDidChangeDirty (heap w' c)). snd l = c"
    unfolding consistent_def by blast
  then have 5: "fired (dirtyTransition c b w') =
            fired w' @ replicate (length (onDidChangeDirty (heap w' c))) c"
    by (simp add: dirtyTransition_fired map_snd_all_same)
  from 1 2 3 4 5 show ?thesis by blast
qed

theorem second_registration_adds_subscription_witness:
  "(3::nat) \<in> registered [Register 3] \<and>
   mapResourceToWorkingCopy (snd (registerWorkingCopy 3 (run [Register 3] (init (\<lambda>c. ''/f1'') (\<lambda>c. 0))))) =
     [(''/f1'', [3])] \<and>
   length (onDidChangeDirty (heap
     (snd (registerWorkingCopy 3 (run [Register 3] (init (\<lambda>c. ''/f1'') (\<lambda>c. 0))))) 3)) = 2 \<and>
   fired (dirtyTransition 3 True
     (snd (registerWorkingCopy 3 (run [Register 3] (init (\<lambda>c. ''/f1'') (\<lambda>c. 0)))))) = [3, 3]"
proof -
  let ?ops = "[Register 3]"
  let ?w = "run ?ops (init (\<lambda>c. ''/f1'') (\<lambda>c. 0))"
  let ?w' = "snd (registerWorkingCopy 3 ?w)"
  have 1: "3 \<in> registered ?ops" by (simp add: world_defs)
  have 2: "registerWorkingCopy 3 ?w = (1, ?w')"
    by (simp add: prod_eq_iff register_fst) (simp add: world_defs)
  have m: "mapResourceToWorkingCopy ?w = [(''/f1'', [3])]" by (simp add: world_defs)
  have l: "onDidChangeDirty (heap ?w 3) = [(0, 3)]" by (simp add: world_defs)
  have f: "fired ?w' = []" by (simp add: register_fired) (simp add: world_defs)
  note t = second_registration_adds_subscription [OF 1 2, where b = True]
  from t m have "mapResourceToWorkingCopy ?w' = [(''/f1'', [3])]" by simp
  moreover from t l have len: "length (onDidChangeDirty (heap ?w' 3)) = 2" by simp
  moreover from t f len have "fired (dirtyTransition 3 True ?w') = [3, 3]"
    by (simp add: numeral_2_eq_2)
  ultimately show ?thesis using 1 by blast
qed

subsection \<open>Unregistering a working copy that is not registered\<close>

text \<open>
  C6, as the claim states it, fails. The working copy \<open>0\<close> is registered twice and
  dirty; disposing the first handle unregisters it and fires the event. Disposing the
  second handle, when \<open>0\<close> is no longer registered and the index is empty, fires the
  service's \<open>onDidChangeDirty\<close> again, and so does \<open>unregisterWorkingCopy\<close> itself.
\<close>

theorem unregister_again_fires_again:
  "0 \<notin> registered [Register 0, Register 0, SetDirty 0 True, Dispose 0] \<and>
   mapResourceToWorkingCopy
     (run [Register 0, Register 0, SetDirty 0 True, Dispose 0] (init (\<lambda>c. ''/f1'') (\<lambda>c. 0))) = [] \<and>
   fired (run [Register 0, Register 0, SetDirty 0 True, Dispose 0] (init (\<lambda>c. ''/f1'') (\<lambda>c. 0))) = [0] \<and>
   fired (dispose_handle 1
     (run [Register 0, Register 0, SetDirty 0 True, Dispose 0] (init (\<lambda>c. ''/f1'') (\<lambda>c. 0)))) = [0, 0] \<and>
   fired (unregisterWorkingCopy 0
     (run [Register 0, Register 0, SetDirty 0 True, Dispose 0] (init (\<lambda>c. ''/f1'') (\<lambda>c. 0)))) = [0, 0]"
  by (simp add: world_defs)

text \<open>
  C6, amended. Unregistering a working copy \<open>c\<close> that is not registered leaves the
  index, the working copies and the handles as they are. It fires no event when \<open>c\<close>
  answers \<open>isDirty()\<close> with false, and fires the service's \<open>onDidChangeDirty\<close> for \<open>c\<close>
  once more when \<open>c\<close> answers true.
\<close>

theorem unregister_unregistered:
  assumes "c \<notin> registered ops"
  shows "mapResourceToWorkingCopy (unregisterWorkingCopy c (run ops (init res caps))) =
           mapResourceToWorkingCopy (run ops (init res caps)) \<and>
         heap (unregisterWorkingCopy c (run ops (init res caps))) = heap (run ops (init res caps)) \<and>
         handles (unregisterWorkingCopy c (run ops (init res caps))) = handles (run ops (init res caps)) \<and>
         fired (unregisterWorkingCopy c (run ops (init res caps))) =
           fired (run ops (init res caps)) @
             (if isDirty (heap (run ops (init res caps)) c) then [c] else [])"
proof -
  let ?w = "run ops (init res caps)"
  let ?a = "fold registered_step ops ([], {})"
  have con: "consistent res ?w (fst ?a, snd ?a)"
    using consistent_run [of res ops caps] by simp
  from assms have "c \<notin> snd (fst ?a, snd ?a)" by (simp add: registered_def)
  then have "c \<notin> set (copies_of (mapResourceToWorkingCopy ?w) (resource (heap ?w c)))"
    using consistent_registered_member [OF con, of c] by simp
  then have "mapResourceToWorkingCopy (unregisterWorkingCopy c ?w) = mapResourceToWorkingCopy ?w"
    by (rule unregister_index_absent)
  then show ?thesis
    by (simp add: unregister_heap unregister_handles unregister_fired)
qed

theorem unregister_unregistered_witness:
  "(0::nat) \<notin> registered [Register 0, Register 1, Dispose 0] \<and>
   mapResourceToWorkingCopy (unregisterWorkingCopy 0
      (run [Register 0, Register 1, Dispose 0] (init (\<lambda>c. ''/f1'') (\<lambda>c. 0)))) = [(''/f1'', [1])] \<and>
   fired (unregisterWorkingCopy 0
      (run [Register 0, Register 1, Dispose 0] (init (\<lambda>c. ''/f1'') (\<lambda>c. 0)))) = []"
proof -
  let ?ops = "[Register 0, Register 1, Dispose 0]"
  let ?w = "run ?ops (init (\<lambda>c. ''/f1'') (\<lambda>c. 0))"
  have 1: "0 \<notin> registered ?ops" by (simp add: world_defs)
  have m: "mapResourceToWorkingCopy ?w = [(''/f1'', [1])]" by (simp add: world_defs)
  have f: "fired ?w = []" by (simp add: world_defs)
  have d: "\<not> isDirty (heap ?w 0)" by (simp add: world_defs)
  note t = unregister_unregistered [OF 1, where res = "\<lambda>c. ''/f1''" and caps = "\<lambda>c. 0"]
  from t m have "mapResourceToWorkingCopy (unregisterWorkingCopy 0 ?w) = [(''/f1'', [1])]"
    by simp
  moreover from t f d have "fired (unregisterWorkingCopy 0 ?w) = []" by simp
  ultimately show ?thesis using 1 by blast
qed


subsection \<open>The tracker and short-delay auto save\<close>

text \<open>
  C7. When the tracker receives a dirty-change event for a working copy whose
  capabilities have the auto-save bit and the auto-save mode asked at that moment is
  \<open>AFTER_SHORT_DELAY\<close>, the handler returns at once: the badge and
  \<open>lastKnownDirtyCount\<close> are what they were, whatever \<open>dirtyCount\<close> of the service is.
\<close>

theorem short_delay_autosave_suppressed:
  assumes "capabilities (heap w copy) AND AutoSave \<noteq> 0"
    and "getAutoSaveMode = AFTER_SHORT_DELAY"
  shows "onWorkingCopyDidChangeDirty AutoSave getAutoSaveMode w copy t = t \<and>
         badgeHandle (onWorkingCopyDidChangeDirty AutoSave getAutoSaveMode w copy t) = badgeHandle t \<and>
         lastKnownDirtyCount (onWorkingCopyDidChangeDirty AutoSave getAutoSaveMode w copy t) =
           lastKnownDirtyCount t"
  using assms by (simp add: onWorkingCopyDidChangeDirty_def)

theorem short_delay_autosave_suppressed_witness:
  "capabilities (heap (run [Register 0, SetDirty 0 True] (init (\<lambda>c. ''/f1'') (\<lambda>c. 2))) 0) AND 2 \<noteq> 0 \<and>
   dirtyCount (run [Register 0, SetDirty 0 True] (init (\<lambda>c. ''/f1'') (\<lambda>c. 2))) = 1 \<and>
   onWorkingCopyDidChangeDirty 2 AFTER_SHORT_DELAY
      (run [Register 0, SetDirty 0 True] (init (\<lambda>c. ''/f1'') (\<lambda>c. 2))) 0
      \<lparr>lastKnownDirtyCount = None, badgeHandle = None\<rparr> =
     \<lparr>lastKnownDirtyCount = None, badgeHandle = None\<rparr>"
proof -
  let ?w = "run [Register 0, SetDirty 0 True] (init (\<lambda>c. ''/f1'') (\<lambda>c. 2))"
  have 1: "capabilities (heap ?w 0) AND 2 \<noteq> 0" by (simp add: world_defs)
  have 2: "dirtyCount ?w = 1"
    by code_simp
  from short_delay_autosave_suppressed [OF 1 refl] 1 2 show ?thesis by blast
qed

subsection \<open>The badge\<close>

text \<open>
  C8. \<open>updateActivityBadge\<close> reads \<open>dirtyCount\<close> of the service and remembers it. When
  the count is zero no badge is shown afterwards; otherwise a badge with that number
  is shown, and its label is "1 unsaved file" for the count 1 and the count in decimal
  followed by " unsaved files" for every other count.
\<close>

theorem updateActivityBadge_shows_count:
  "lastKnownDirtyCount (updateActivityBadge w t) = Some (dirtyCount w) \<and>
   (dirtyCount w = 0 \<longrightarrow> badgeHandle (updateActivityBadge w t) = None) \<and>
   (dirtyCount w \<noteq> 0 \<longrightarrow>
      (\<exists>b. badgeHandle (updateActivityBadge w t) = Some b \<and>
           number b = dirtyCount w \<and>
           getDescription b =
             (if dirtyCount w = 1 then ''1 unsaved file''
              else show_nat (dirtyCount w) @ '' unsaved files'')))"
  by (simp add: updateActivityBadge_def Let_def getDescription_def localize_dirtyFiles
      localize_dirtyFile)

theorem updateActivityBadge_shows_count_witness:
  "dirtyCount (run [Register 0, Register 1, SetDirty 0 True, SetDirty 1 True]
      (init (\<lambda>c. ''/f1'') (\<lambda>c. 0))) = 2 \<and>
   (\<exists>b. badgeHandle (updateActivityBadge
            (run [Register 0, Register 1, SetDirty 0 True, SetDirty 1 True]
               (init (\<lambda>c. ''/f1'') (\<lambda>c. 0)))
            \<lparr>lastKnownDirtyCount = None, badgeHandle = None\<rparr>) = Some b \<and>
        number b = 2 \<and> getDescription b = ''2 unsaved files'') \<and>
   badgeHandle (updateActivityBadge (init (\<lambda>c. ''/f1'') (\<lambda>c. 0))
      \<lparr>lastKnownDirtyCount = Some 2, badgeHandle = None\<rparr>) = None"
proof -
  let ?w = "run [Register 0, Register 1, SetDirty 0 True, SetDirty 1 True] (init (\<lambda>c. ''/f1'') (\<lambda>c. 0))"
  let ?t = "\<lparr>lastKnownDirtyCount = None, badgeHandle = None\<rparr>"
  let ?v = "init (\<lambda>c. ''/f1'') (\<lambda>c. 0)"
  let ?u = "\<lparr>lastKnownDirtyCount = Some 2, badgeHandle = None\<rparr>"
  have 1: "dirtyCount ?w = 2"
    by code_simp
  have 2: "dirtyCount ?v = 0"
    by (simp add: init_def dirtyCount_def tst_forEach_def)
  have s: "show_nat 2 = ''2''"
    by code_simp
  from updateActivityBadge_shows_count [of ?w ?t] 1 s
  have "\<exists>b. badgeHandle (updateActivityBadge ?w ?t) = Some b \<and>
        number b = 2 \<and> getDescription b = ''2 unsaved files''"
    by simp
  moreover from updateActivityBadge_shows_count [of ?v ?u] 2
  have "badgeHandle (updateActivityBadge ?v ?u) = None" by simp
  ultimately show ?thesis using 1 by blast
qed

subsection \<open>Opening dirty files\<close>

text \<open>
  C9. For a batch of dirty notifications the tracker asks the editor service to open
  resources of the batch only, each of which has a model that is dirty and not in the
  state \<open>PENDING_SAVE\<close> and is not open in an editor; every such resource of the
  batch is asked for up to its string form, no string form is asked for twice, and
  every input is inactive, pinned and preserves the focus.
\<close>

theorem onTextFilesDirty_opens:
  "input_resource ` set (onTextFilesDirty toString models_get isOpen e) \<subseteq>
     {r \<in> event_resource ` set e.
        (\<exists>m. models_get r = Some m \<and> model_isDirty m \<and> \<not> hasState m PENDING_SAVE) \<and> \<not> isOpen r} \<and>
   toString ` input_resource ` set (onTextFilesDirty toString models_get isOpen e) =
     toString ` {r \<in> event_resource ` set e.
        (\<exists>m. models_get r = Some m \<and> model_isDirty m \<and> \<not> hasState m PENDING_SAVE) \<and> \<not> isOpen r} \<and>
   distinct (map (\<lambda>q. toString (input_resource q)) (onTextFilesDirty toString models_get isOpen e)) \<and>
   (\<forall>q \<in> set (onTextFilesDirty toString models_get isOpen e).
      inactive q \<and> pinned q \<and> preserveFocus q)"
proof -
  let ?P = "\<lambda>r. (\<exists>m. models_get r = Some m \<and> model_isDirty m \<and> \<not> hasState m PENDING_SAVE) \<and> \<not> isOpen r"
  let ?sel = "map event_resource
     (filter (\<lambda>e. shouldOpen (models_get (event_resource e)) \<and> \<not> isOpen (event_resource e)) e)"
  let ?rs = "distinct_by ?sel toString"
  let ?out = "onTextFilesDirty toString models_get isOpen e"
  have sel: "set ?sel = {r \<in> event_resource ` set e. ?P r}"
    by (rule selected_resources)
  have res: "map input_resource ?out = ?rs"
    unfolding onTextFilesDirty_def by (rule doOpenDirtyResources_resources)
  have "set (map input_resource ?out) = set ?rs"
    by (simp only: res)
  then have img: "input_resource ` set ?out = set ?rs"
    by simp
  have 1: "set ?rs \<subseteq> {r \<in> event_resource ` set e. ?P r}"
    unfolding sel [symmetric] distinct_by_def by (rule distinct_seen_subset)
  have 2: "toString ` set ?rs = toString ` {r \<in> event_resource ` set e. ?P r}"
    unfolding sel [symmetric] distinct_by_def by (simp add: distinct_seen_keys)
  have "map toString (map input_resource ?out) = map toString ?rs"
    by (simp only: res)
  then have "map (\<lambda>q. toString (input_resource q)) ?out = map toString ?rs"
    by (simp add: comp_def)
  then have 3: "distinct (map (\<lambda>q. toString (input_resource q)) ?out)"
    by (simp add: distinct_by_def distinct_seen_distinct)
  have 4: "\<forall>q \<in> set ?out. inactive q \<and> pinned q \<and> preserveFocus q"
    unfolding onTextFilesDirty_def by (blast dest: doOpenDirtyResources_options)
  from 1 2 3 4 show ?thesis unfolding img by blast
qed

theorem onTextFilesDirty_opens_witness:
  "map input_resource
     (onTextFilesDirty fst
        (\<lambda>r. if r = (''/c'', 0) then None else Some \<lparr>model_isDirty = True, hasState = (\<lambda>s. False)\<rparr>)
        (\<lambda>r. r = (''/b'', 0))
        [\<lparr>event_resource = (''/a'', 0::nat)\<rparr>, \<lparr>event_resource = (''/b'', 0)\<rparr>,
         \<lparr>event_resource = (''/a'', 1)\<rparr>, \<lparr>event_resource = (''/c'', 0)\<rparr>]) = [(''/a'', 0)] \<and>
   inactive (hd
     (onTextFilesDirty fst
        (\<lambda>r. if r = (''/c'', 0) then None else Some \<lparr>model_isDirty = True, hasState = (\<lambda>s. False)\<rparr>)
        (\<lambda>r. r = (''/b'', 0))
        [\<lparr>event_resource = (''/a'', 0::nat)\<rparr>, \<lparr>event_resource = (''/b'', 0)\<rparr>,
         \<lparr>event_resource = (''/a'', 1)\<rparr>, \<lparr>event_resource = (''/c'', 0)\<rparr>]))"
proof -
  let ?get = "\<lambda>r :: string \<times> nat.
     if r = (''/c'', 0) then None else Some \<lparr>model_isDirty = True, hasState = (\<lambda>s. False)\<rparr>"
  let ?open = "\<lambda>r :: string \<times> nat. r = (''/b'', 0)"
  let ?e = "[\<lparr>event_resource = (''/a'', 0::nat)\<rparr>, \<lparr>event_resource = (''/b'', 0)\<rparr>,
         \<lparr>event_resource = (''/a'', 1)\<rparr>, \<lparr>event_resource = (''/c'', 0)\<rparr>]"
  let ?out = "onTextFilesDirty fst ?get ?open ?e"
  have 1: "map input_resource ?out = [(''/a'', 0)]"
    by (simp add: onTextFilesDirty_def doOpenDirtyResources_def distinct_by_def shouldOpen_def)
  then have "?out \<noteq> []" by auto
  then have "hd ?out \<in> set ?out" by simp
  with onTextFilesDirty_opens [of fst ?get ?open ?e] have "inactive (hd ?out)" by blast
  with 1 show ?thesis by blast
qed


end
